theory Spec2Isabelle
  imports Complex_Main "HOL-Library.AList" "HOL-Library.Char_ord" "HOL-Library.List_Lexorder"
begin

section \<open>The n-gram language model of the notebook\<close>

text \<open>
  The notebook \<^verbatim>\<open>Assignement_1_Language_modeling.ipynb\<close> defines a preprocessor
  (\<^verbatim>\<open>add_sentence_tokens\<close>, \<^verbatim>\<open>replace_singletons\<close>, \<^verbatim>\<open>preprocess\<close>) and the class
  \<^verbatim>\<open>LanguageModel\<close> with \<^verbatim>\<open>__init__\<close>, \<^verbatim>\<open>_smooth\<close> and \<^verbatim>\<open>_create_model\<close>.
  Python strings are modelled as \<^typ>\<open>string\<close>, tuples of tokens as token lists,
  dictionaries (\<^verbatim>\<open>dict\<close>, \<^verbatim>\<open>nltk.FreqDist\<close>) as association lists in insertion
  order, Python integers as \<^typ>\<open>int\<close> and \<^typ>\<open>nat\<close> (counts), and exceptions as the
  left summand of a sum type. The quotient of Python's true division is idealised as a
  \<^typ>\<open>real\<close>: rounding of the floating-point result is not modelled.
\<close>

subsection \<open>Python strings\<close>

definition SOS :: string where
  "SOS = ''<s> ''"

definition EOS :: string where
  "EOS = ''</s>''"

definition UNK :: string where
  "UNK = ''<UNK>''"

text \<open>\<^verbatim>\<open>s * k\<close>: the string repeated, empty when \<open>k \<le> 0\<close>.\<close>

definition str_mul :: "string \<Rightarrow> int \<Rightarrow> string" where
  "str_mul s k = concat (replicate (nat k) s)"

text \<open>\<^verbatim>\<open>sep.join(xs)\<close>.\<close>

fun str_join :: "string \<Rightarrow> string list \<Rightarrow> string" where
  "str_join sep [] = []"
| "str_join sep [x] = x"
| "str_join sep (x # y # ys) = x @ sep @ str_join sep (y # ys)"

text \<open>
  \<^verbatim>\<open>s.split(sep)\<close> for a separator of one character: the string is cut at every
  occurrence of the separator, empty pieces are kept, and the empty string gives
  one empty piece. (The second branch of the \<open>case\<close> is the only one taken, the
  result is never empty.)
\<close>

fun str_split :: "char \<Rightarrow> string \<Rightarrow> string list" where
  "str_split sep [] = [[]]"
| "str_split sep (c # cs) =
     (if c = sep then [] # str_split sep cs
      else (case str_split sep cs of [] \<Rightarrow> [[c]] | w # ws \<Rightarrow> (c # w) # ws))"

subsection \<open>Exceptions\<close>

text \<open>
  \<open>ValueError\<close> and \<open>ZeroDivisionError\<close> are the Python exceptions that the calls
  of the class can raise. \<open>ConfigurationError\<close> is the failure that the
  specification names for an invalid order; no path of the source raises it.
\<close>

datatype error = ValueError | ZeroDivisionError | ConfigurationError

subsection \<open>Frequency distributions and dictionaries\<close>

text \<open>
  \<^verbatim>\<open>nltk.FreqDist(xs)\<close> is a \<^verbatim>\<open>collections.Counter\<close>: the items are counted one
  after the other, a new key is appended, and the count of an absent key reads 0.
\<close>

definition FreqDist :: "'a list \<Rightarrow> ('a \<times> nat) list" where
  "FreqDist xs = foldl (\<lambda>d x. AList.map_default x 1 Suc d) [] xs"

definition freq :: "('a \<times> nat) list \<Rightarrow> 'a \<Rightarrow> nat" where
  "freq d k = (case map_of d k of None \<Rightarrow> 0 | Some c \<Rightarrow> c)"

text \<open>
  A dictionary comprehension \<^verbatim>\<open>{ key(x): value(x) for x in xs }\<close> whose body can
  raise: \<open>f x\<close> is the pair of key and value; the first exception ends the
  comprehension; a key that comes again overwrites the stored value.
\<close>

fun dict_comp :: "('a \<Rightarrow> error + ('k \<times> 'v)) \<Rightarrow> 'a list \<Rightarrow> ('k \<times> 'v) list \<Rightarrow> error + ('k \<times> 'v) list" where
  "dict_comp f [] d = Inr d"
| "dict_comp f (x # xs) d =
     (case f x of
        Inl e \<Rightarrow> Inl e
      | Inr (k, v) \<Rightarrow> dict_comp f xs (AList.update k v d))"

subsection \<open>The preprocessor\<close>

definition add_sentence_tokens :: "string list \<Rightarrow> int \<Rightarrow> string list" where
  "add_sentence_tokens sentences n =
     (let sos = (if n > 1 then str_mul SOS (n - 1) else SOS)
      in map (\<lambda>s. sos @ s @ '' '' @ EOS) sentences)"

definition replace_singletons :: "string list \<Rightarrow> string list" where
  "replace_singletons tokens =
     (let vocab = FreqDist tokens
      in map (\<lambda>token. if freq vocab token > 1 then token else UNK) tokens)"

definition preprocess :: "string list \<Rightarrow> int \<Rightarrow> string list" where
  "preprocess sentences n =
     (let sentences' = add_sentence_tokens sentences n;
          tokens = str_split CHR '' '' (str_join '' '' sentences')
      in replace_singletons tokens)"

subsection \<open>The library's n-grams and products\<close>

text \<open>
  \<^verbatim>\<open>nltk.ngrams(sequence, n)\<close> without padding, as NLTK implements it since its
  release 3.7: \<^verbatim>\<open>zip(*iterables)\<close> over \<^verbatim>\<open>itertools.tee(sequence, n)\<close>, the \<open>i\<close>-th
  copy advanced by \<open>i\<close> items. For \<open>n \<ge> 1\<close> these are the contiguous windows of
  length \<open>n\<close>, sliding by one position (none when the sequence is shorter than
  \<open>n\<close>); \<^verbatim>\<open>zip()\<close> of no iterable is empty; \<^verbatim>\<open>tee\<close> raises \<^verbatim>\<open>ValueError\<close> on a
  negative \<open>n\<close>.
\<close>

fun windows :: "nat \<Rightarrow> 'a list \<Rightarrow> 'a list list" where
  "windows k [] = []"
| "windows k (x # xs) =
     (if length (x # xs) < k then [] else take k (x # xs) # windows k xs)"

definition ngrams :: "'a list \<Rightarrow> int \<Rightarrow> error + 'a list list" where
  "ngrams sequence n =
     (if n < 0 then Inl ValueError
      else if n = 0 then Inr []
      else Inr (windows (nat n) sequence))"

text \<open>
  \<^verbatim>\<open>list(itertools.product(xs, repeat=n))\<close>: the tuples in lexicographic order,
  the last position changing fastest; \<^verbatim>\<open>ValueError\<close> on a negative \<open>n\<close>.
\<close>

definition product_repeat :: "'a list \<Rightarrow> int \<Rightarrow> error + 'a list list" where
  "product_repeat xs n =
     (if n < 0 then Inl ValueError
      else Inr (product_lists (replicate (nat n) xs)))"

subsection \<open>The class LanguageModel\<close>

text \<open>\<^verbatim>\<open>a / b\<close> on Python integers.\<close>

definition truediv :: "int \<Rightarrow> int \<Rightarrow> error + real" where
  "truediv a b =
     (if b = 0 then Inl ZeroDivisionError else Inr (real_of_int a / real_of_int b))"

record LanguageModel =
  self_n :: int
  self_laplace :: int
  self_tokens :: "string list"
  self_vocab :: "(string \<times> nat) list"
  self_model :: "(string list \<times> real) list"
  self_masks :: "nat list list"

text \<open>
  The methods read \<^verbatim>\<open>self.n\<close>, \<^verbatim>\<open>self.laplace\<close>, \<^verbatim>\<open>self.tokens\<close> and
  \<^verbatim>\<open>self.vocab\<close>, which \<^verbatim>\<open>__init__\<close> has set before it calls them: they are
  parameters here. \<open>smoothed_count\<close> is the local function of \<^verbatim>\<open>_smooth\<close>.
\<close>

definition smoothed_count ::
  "int \<Rightarrow> nat \<Rightarrow> (string list \<times> nat) list \<Rightarrow> string list \<Rightarrow> nat \<Rightarrow> error + real" where
  "smoothed_count laplace vocab_size m_vocab n_gram n_count =
     (let m_gram = butlast n_gram;
          m_count = freq m_vocab m_gram
      in truediv (int n_count + laplace) (int m_count + laplace * int vocab_size))"

definition smooth ::
  "int \<Rightarrow> int \<Rightarrow> string list \<Rightarrow> (string \<times> nat) list \<Rightarrow> error + (string list \<times> real) list" where
  "smooth n laplace tokens vocab =
     (let vocab_size = length vocab in
      case ngrams tokens n of
        Inl e \<Rightarrow> Inl e
      | Inr n_grams \<Rightarrow>
          (let n_vocab = FreqDist n_grams in
           case ngrams tokens (n - 1) of
             Inl e \<Rightarrow> Inl e
           | Inr m_grams \<Rightarrow>
               (let m_vocab = FreqDist m_grams in
                dict_comp
                  (\<lambda>(n_gram, count).
                     case smoothed_count laplace vocab_size m_vocab n_gram count of
                       Inl e \<Rightarrow> Inl e
                     | Inr p \<Rightarrow> Inr (n_gram, p))
                  n_vocab [])))"

definition create_model ::
  "int \<Rightarrow> int \<Rightarrow> string list \<Rightarrow> (string \<times> nat) list \<Rightarrow> error + (string list \<times> real) list" where
  "create_model n laplace tokens vocab =
     (if n = 1 then
        (let num_tokens = length tokens in
         dict_comp
           (\<lambda>(unigram, count).
              case truediv (int count) (int num_tokens) of
                Inl e \<Rightarrow> Inl e
              | Inr p \<Rightarrow> Inr ([unigram], p))
           vocab [])
      else smooth n laplace tokens vocab)"

definition LanguageModel_init :: "string list \<Rightarrow> int \<Rightarrow> int \<Rightarrow> error + LanguageModel" where
  "LanguageModel_init train_data n laplace =
     (let tokens = preprocess train_data n;
          vocab = FreqDist tokens
      in case create_model n laplace tokens vocab of
           Inl e \<Rightarrow> Inl e
         | Inr model \<Rightarrow>
             (case product_repeat [0, 1] n of
                Inl e \<Rightarrow> Inl e
              | Inr ms \<Rightarrow>
                  Inr \<lparr>self_n = n, self_laplace = laplace, self_tokens = tokens,
                       self_vocab = vocab, self_model = model, self_masks = rev ms\<rparr>))"

subsection \<open>The preprocessing steps in the words of the specification\<close>

text \<open>
  Splitting on whitespace, as \<^verbatim>\<open>str.split()\<close> without an argument does it: runs
  of whitespace characters separate the tokens and no token is empty.
\<close>

definition is_whitespace :: "char \<Rightarrow> bool" where
  "is_whitespace c \<longleftrightarrow> c \<in> set [CHR '' '', CHR 0x09, CHR 0x0A, CHR 0x0B, CHR 0x0C, CHR 0x0D]"

fun split_pieces :: "string \<Rightarrow> string list" where
  "split_pieces [] = [[]]"
| "split_pieces (c # cs) =
     (if is_whitespace c then [] # split_pieces cs
      else (case split_pieces cs of [] \<Rightarrow> [[c]] | w # ws \<Rightarrow> (c # w) # ws))"

definition split_whitespace :: "string \<Rightarrow> string list" where
  "split_whitespace s = filter (\<lambda>w. w \<noteq> []) (split_pieces s)"

text \<open>
  Steps (a) to (d) of the specification's preprocessor: wrap every sentence in
  its markers, join with single spaces, split on whitespace, and replace the
  tokens of frequency 1 by the unknown marker.
\<close>

definition preprocess_spec :: "string list \<Rightarrow> int \<Rightarrow> string list" where
  "preprocess_spec sentences n =
     (let k = (if n = 1 then 1 else nat (n - 1));
          wrapped = map (\<lambda>s. concat (replicate k ''<s> '') @ s @ '' </s>'') sentences;
          raw = split_whitespace (str_join '' '' wrapped)
      in map (\<lambda>t. if count_list raw t = 1 then ''<UNK>'' else t) raw)"

subsection \<open>Probability lookup and generation, from the specification\<close>

text \<open>
  The notebook calls \<^verbatim>\<open>lm.generate_sentences(6)\<close>, but the class it defines has
  no method besides \<^verbatim>\<open>__init__\<close>, \<^verbatim>\<open>_smooth\<close> and \<^verbatim>\<open>_create_model\<close>. The
  lookup and the generation below follow sections 4.2 to 4.4 of the
  specification.
\<close>

text \<open>
  Modelled from the spec: the frequency counter of section 4.2 (absent from the
  notebook as a function of its own), for a window length \<open>k \<ge> 0\<close>: the counts
  of all contiguous windows of length \<open>k\<close>, where \<open>k = 0\<close> yields the empty tuple
  once per position.
\<close>

definition frequency_counter :: "string list \<Rightarrow> nat \<Rightarrow> (string list \<times> nat) list" where
  "frequency_counter toks k =
     FreqDist (if k = 0 then replicate (length toks) [] else windows k toks)"

text \<open>
  Modelled from the spec: the method \<^verbatim>\<open>probability(ngram)\<close> of section 4.4
  (absent from the notebook): the table's precomputed value if present, otherwise
  the smoothing formula of section 4.3 on live counts, that is with count 0 for
  the n-gram and the count of its first \<open>n - 1\<close> tokens read from the
  \<open>(n - 1)\<close>-gram frequency table (0 if absent).
\<close>

definition probability :: "LanguageModel \<Rightarrow> string list \<Rightarrow> error + real" where
  "probability M ngram =
     (case map_of (self_model M) ngram of
        Some p \<Rightarrow> Inr p
      | None \<Rightarrow>
          (let m = nat (self_n M - 1);
               m_count = freq (frequency_counter (self_tokens M) m) (take m ngram);
               vocab_size = length (self_vocab M)
           in truediv (0 + self_laplace M) (int m_count + self_laplace M * int vocab_size)))"

text \<open>
  Modelled from the spec: \<^verbatim>\<open>best_candidate(context, exclude)\<close> of section 4.4
  (absent from the notebook): every vocabulary token that is not excluded is a
  candidate, scored by \<open>probability (context + candidate)\<close>; the candidate of
  highest probability is returned, ties broken by the lexicographic order of the
  tokens. \<open>better a b\<close> says that candidate \<open>a\<close> is preferred to \<open>b\<close>.
\<close>

definition better :: "string \<times> real \<Rightarrow> string \<times> real \<Rightarrow> bool" where
  "better a b \<longleftrightarrow> snd b < snd a \<or> (snd a = snd b \<and> fst a < fst b)"

fun pick_best :: "(string \<times> real) list \<Rightarrow> (string \<times> real) option" where
  "pick_best [] = None"
| "pick_best (c # cs) =
     (case pick_best cs of
        None \<Rightarrow> Some c
      | Some b \<Rightarrow> if better b c then Some b else Some c)"

fun score :: "LanguageModel \<Rightarrow> string list \<Rightarrow> string list \<Rightarrow> error + (string \<times> real) list" where
  "score M context [] = Inr []"
| "score M context (t # ts) =
     (case probability M (context @ [t]) of
        Inl e \<Rightarrow> Inl e
      | Inr p \<Rightarrow>
          (case score M context ts of
             Inl e \<Rightarrow> Inl e
           | Inr r \<Rightarrow> Inr ((t, p) # r)))"

definition best_candidate ::
  "LanguageModel \<Rightarrow> string list \<Rightarrow> string list \<Rightarrow> error + (string \<times> real) option" where
  "best_candidate M context exclude =
     (case score M context (filter (\<lambda>t. t \<notin> set exclude) (map fst (self_vocab M))) of
        Inl e \<Rightarrow> Inl e
      | Inr scored \<Rightarrow> Inr (pick_best scored))"

text \<open>
  Modelled from the spec: \<^verbatim>\<open>generate_sentences(count, min_len, max_len)\<close> of
  section 4.4 (called by the notebook, defined nowhere in it). A sentence is
  seeded with \<open>n - 1\<close> start markers and extended by the best candidate for the
  last \<open>n - 1\<close> tokens, whose probability is multiplied into the running
  probability, until the end marker is produced or \<open>max_len\<close> tokens have been
  generated; while fewer than \<open>min_len\<close> tokens have been generated the end marker
  is excluded. \<open>extend\<close> is the loop, its second argument the number of tokens
  that may still be generated and its third the number generated so far; where
  no candidate is left the sentence ends. The result pairs the tokens joined by
  single spaces with the product of the probabilities. (The output that the
  notebook records for its one call, six different sentences, was printed by a
  function that is not in the repository; the sentences of one call of this
  description are all the same.)
\<close>

fun extend ::
  "LanguageModel \<Rightarrow> nat \<Rightarrow> nat \<Rightarrow> nat \<Rightarrow> string list \<Rightarrow> real \<Rightarrow> error + (string list \<times> real)" where
  "extend M min_len 0 len sent prob = Inr (sent, prob)"
| "extend M min_len (Suc fuel) len sent prob =
     (let m = nat (self_n M - 1);
          context = drop (length sent - m) sent;
          exclude = (if len < min_len then [EOS] else [])
      in case best_candidate M context exclude of
           Inl e \<Rightarrow> Inl e
         | Inr None \<Rightarrow> Inr (sent, prob)
         | Inr (Some (t, p)) \<Rightarrow>
             if t = EOS then Inr (sent @ [t], prob * p)
             else extend M min_len fuel (Suc len) (sent @ [t]) (prob * p))"

definition generate_sentence :: "LanguageModel \<Rightarrow> nat \<Rightarrow> nat \<Rightarrow> error + (string \<times> real)" where
  "generate_sentence M min_len max_len =
     (case extend M min_len max_len 0 (replicate (nat (self_n M - 1)) ''<s>'') 1 of
        Inl e \<Rightarrow> Inl e
      | Inr (sent, prob) \<Rightarrow> Inr (str_join '' '' sent, prob))"

fun generate_sentences ::
  "LanguageModel \<Rightarrow> nat \<Rightarrow> nat \<Rightarrow> nat \<Rightarrow> error + (string \<times> real) list" where
  "generate_sentences M 0 min_len max_len = Inr []"
| "generate_sentences M (Suc count) min_len max_len =
     (case generate_sentence M min_len max_len of
        Inl e \<Rightarrow> Inl e
      | Inr r \<Rightarrow>
          (case generate_sentences M count min_len max_len of
             Inl e \<Rightarrow> Inl e
           | Inr rs \<Rightarrow> Inr (r # rs)))"

subsection \<open>Generation as a relation\<close>

text \<open>
  Modelled from the spec: what section 4.4 requires of the token that
  \<^verbatim>\<open>best_candidate\<close> returns, stated without an algorithm. \<open>t\<close> with probability
  \<open>p\<close> is the continuation of a context when \<open>t\<close> is a vocabulary token that is
  not excluded, \<open>p\<close> is its probability after the context, and every other such
  token has a defined probability that is smaller, or equal with a token that
  is not before \<open>t\<close> in the lexicographic order.
\<close>

definition max_continuation ::
  "LanguageModel \<Rightarrow> string list \<Rightarrow> string list \<Rightarrow> string \<Rightarrow> real \<Rightarrow> bool" where
  "max_continuation M context exclude t p \<longleftrightarrow>
     t \<in> set (map fst (self_vocab M)) \<and> t \<notin> set exclude \<and>
     probability M (context @ [t]) = Inr p \<and>
     (\<forall>t' \<in> set (map fst (self_vocab M)).
        t' \<notin> set exclude \<longrightarrow>
          (case probability M (context @ [t']) of
             Inl e \<Rightarrow> False
           | Inr p' \<Rightarrow> p' < p \<or> (p' = p \<and> t \<le> t')))"

text \<open>
  Modelled from the spec: the state machine of section 4.4 for one sentence
  (SEEDED, EXTENDING, TERMINATED), as a relation between the state of the
  sentence and its final state. Nothing in it is computed: a run may take any
  step that the specification allows. The context is the last \<open>n - 1\<close> tokens,
  the end marker is excluded while fewer than \<open>min_len\<close> tokens have been
  generated, and a run ends when \<open>max_len\<close> is reached, when no candidate is
  left, or with the end marker.
\<close>

abbreviation context_of :: "LanguageModel \<Rightarrow> string list \<Rightarrow> string list" where
  "context_of M sent \<equiv> drop (length sent - nat (self_n M - 1)) sent"

abbreviation excluded :: "nat \<Rightarrow> nat \<Rightarrow> string list" where
  "excluded min_len len \<equiv> (if len < min_len then [EOS] else [])"

inductive generation_run ::
  "LanguageModel \<Rightarrow> nat \<Rightarrow> nat \<Rightarrow> nat \<Rightarrow> string list \<Rightarrow> real \<Rightarrow> string list \<Rightarrow> real \<Rightarrow> bool"
  for M :: LanguageModel and min_len :: nat where
  max_len_reached:
    "generation_run M min_len 0 len sent prob sent prob"
| no_candidate:
    "\<forall>t \<in> set (map fst (self_vocab M)). t \<in> set (excluded min_len len) \<Longrightarrow>
     generation_run M min_len (Suc fuel) len sent prob sent prob"
| end_marker:
    "max_continuation M (context_of M sent) (excluded min_len len) EOS p \<Longrightarrow>
     generation_run M min_len (Suc fuel) len sent prob (sent @ [EOS]) (prob * p)"
| continuation:
    "max_continuation M (context_of M sent) (excluded min_len len) t p \<Longrightarrow> t \<noteq> EOS \<Longrightarrow>
     generation_run M min_len fuel (Suc len) (sent @ [t]) (prob * p) sent' prob' \<Longrightarrow>
     generation_run M min_len (Suc fuel) len sent prob sent' prob'"

code_pred generation_run .

text \<open>
  Modelled from the spec: a call of \<^verbatim>\<open>generate_sentences(count, min_len, max_len)\<close>
  as a relation between the arguments and the sequence of pairs returned, each
  sentence being a run from the seed of \<open>n - 1\<close> start markers and probability 1.
\<close>

inductive generation_call ::
  "LanguageModel \<Rightarrow> nat \<Rightarrow> nat \<Rightarrow> nat \<Rightarrow> (string \<times> real) list \<Rightarrow> bool"
  for M :: LanguageModel where
  no_sentence:
    "generation_call M 0 min_len max_len []"
| next_sentence:
    "generation_run M min_len max_len 0 (replicate (nat (self_n M - 1)) ''<s>'') 1 sent prob \<Longrightarrow>
     generation_call M count min_len max_len out \<Longrightarrow>
     generation_call M (Suc count) min_len max_len ((str_join '' '' sent, prob) # out)"

code_pred generation_call .

subsection \<open>Equality of models\<close>

text \<open>
  Python compares dictionaries by their items, whatever the insertion order:
  two association lists with distinct keys stand for equal dictionaries when
  they hold the same pairs, and two model objects are equal when their fields
  are. (The masks are read by no method and are left out of the comparison.)
\<close>

definition dict_equal :: "('k \<times> 'v) list \<Rightarrow> ('k \<times> 'v) list \<Rightarrow> bool" where
  "dict_equal d d' \<longleftrightarrow> distinct (map fst d) \<and> distinct (map fst d') \<and> set d = set d'"

definition same_model :: "LanguageModel \<Rightarrow> LanguageModel \<Rightarrow> bool" where
  "same_model M M' \<longleftrightarrow>
     self_n M = self_n M' \<and> self_laplace M = self_laplace M' \<and>
     self_tokens M = self_tokens M' \<and>
     dict_equal (self_vocab M) (self_vocab M') \<and>
     dict_equal (self_model M) (self_model M')"

section \<open>Frequency distributions and dictionary comprehensions\<close>

lemma map_of_count_fold:
  "map_of (foldl (\<lambda>d x. AList.map_default x 1 Suc d) d0 xs) k =
     (case map_of d0 k of
        None \<Rightarrow> if k \<in> set xs then Some (count_list xs k) else None
      | Some c \<Rightarrow> Some (c + count_list xs k))"
  by (induction xs arbitrary: d0) (auto simp: map_of_map_default split: option.splits)

lemma map_of_FreqDist:
  "map_of (FreqDist xs) k = (if k \<in> set xs then Some (count_list xs k) else None)"
  unfolding FreqDist_def by (subst map_of_count_fold) simp

lemma freq_FreqDist: "freq (FreqDist xs) k = count_list xs k"
  by (simp add: freq_def map_of_FreqDist)

lemma distinct_count_fold:
  "distinct (map fst d0) \<Longrightarrow> distinct (map fst (foldl (\<lambda>d x. AList.map_default x 1 Suc d) d0 xs))"
  by (induction xs arbitrary: d0) (simp_all add: distinct_map_default)

lemma distinct_FreqDist: "distinct (map fst (FreqDist xs))"
  unfolding FreqDist_def by (rule distinct_count_fold) simp

lemma FreqDist_item_iff:
  "(k, c) \<in> set (FreqDist xs) \<longleftrightarrow> k \<in> set xs \<and> c = count_list xs k"
  using map_of_eq_Some_iff [OF distinct_FreqDist, of xs k c]
  by (auto simp: map_of_FreqDist split: if_splits)

lemma keys_FreqDist: "fst ` set (FreqDist xs) = set xs"
proof (rule set_eqI)
  fix k
  have "k \<in> set xs \<Longrightarrow> fst (k, count_list xs k) = k \<and> (k, count_list xs k) \<in> set (FreqDist xs)"
    by (simp add: FreqDist_item_iff)
  then have "k \<in> set xs \<Longrightarrow> k \<in> fst ` set (FreqDist xs)"
    by (metis imageI)
  moreover have "k \<in> fst ` set (FreqDist xs) \<Longrightarrow> k \<in> set xs"
    by (auto simp: FreqDist_item_iff)
  ultimately show "k \<in> fst ` set (FreqDist xs) \<longleftrightarrow> k \<in> set xs"
    by blast
qed

lemma length_FreqDist: "length (FreqDist xs) = card (set xs)"
proof -
  have "length (FreqDist xs) = length (map fst (FreqDist xs))" by simp
  also have "\<dots> = card (set (map fst (FreqDist xs)))"
    using distinct_FreqDist [of xs] by (simp only: distinct_card)
  also have "\<dots> = card (set xs)" by (simp add: keys_FreqDist)
  finally show ?thesis .
qed

text \<open>
  A comprehension over items with distinct keys, whose key function is
  injective, stores for every item the value computed for it, and nothing else.
\<close>

lemma dict_comp_lookup:
  assumes "dict_comp (\<lambda>(k, c). case g k c of Inl e \<Rightarrow> Inl e | Inr p \<Rightarrow> Inr (h k, p)) xs d = Inr r"
    and "distinct (map fst xs)" and "inj h"
  shows "(\<forall>(k, c) \<in> set xs. \<exists>p. g k c = Inr p \<and> map_of r (h k) = Some p) \<and>
         (\<forall>key. key \<notin> h ` fst ` set xs \<longrightarrow> map_of r key = map_of d key)"
  using assms
proof (induction xs arbitrary: d)
  case Nil
  then show ?case by simp
next
  case (Cons x xs)
  obtain k c where x: "x = (k, c)" by (cases x)
  from Cons.prems(1) x obtain p where p: "g k c = Inr p"
    and rest: "dict_comp (\<lambda>(k, c). case g k c of Inl e \<Rightarrow> Inl e | Inr p \<Rightarrow> Inr (h k, p)) xs (AList.update (h k) p d) = Inr r"
    by (auto split: sum.splits)
  from Cons.prems(2) x have dist: "distinct (map fst xs)" and knew: "k \<notin> fst ` set xs"
    by auto
  note IH = Cons.IH [OF rest dist Cons.prems(3)]
  from knew Cons.prems(3) have "h k \<notin> h ` fst ` set xs"
    by (auto dest: injD)
  with IH have "map_of r (h k) = map_of (AList.update (h k) p d) (h k)"
    by blast
  then have head: "map_of r (h k) = Some p"
    by (simp add: update_conv')
  have other: "map_of r key = map_of d key" if "key \<notin> h ` fst ` set (x # xs)" for key
  proof -
    from that x have "key \<noteq> h k" and "key \<notin> h ` fst ` set xs" by auto
    with IH show ?thesis by (simp add: update_conv')
  qed
  from IH head p other x show ?case by auto
qed

lemma dict_comp_keys:
  assumes "dict_comp (\<lambda>(k, c). case g k c of Inl e \<Rightarrow> Inl e | Inr p \<Rightarrow> Inr (h k, p)) xs [] = Inr r"
    and "distinct (map fst xs)" and "inj h" and "map_of r key = Some p"
  shows "\<exists>k c. (k, c) \<in> set xs \<and> key = h k \<and> g k c = Inr p"
proof -
  note L = dict_comp_lookup [OF assms(1-3)]
  from L assms(4) have "key \<in> h ` fst ` set xs"
    by (metis map_of.simps(1) option.distinct(1))
  then obtain k c where kc: "(k, c) \<in> set xs" "key = h k"
    by auto
  with L obtain p' where "g k c = Inr p'" "map_of r (h k) = Some p'"
    by fastforce
  with kc assms(4) show ?thesis by auto
qed

section \<open>The preprocessor\<close>

lemma replace_singletons_map:
  "replace_singletons ts = map (\<lambda>t. if count_list ts t > 1 then t else UNK) ts"
  by (simp add: replace_singletons_def freq_FreqDist)

lemma count_list_map_if:
  assumes "t \<noteq> u"
  shows "count_list (map (\<lambda>x. if P x then x else u) xs) t = (if P t then count_list xs t else 0)"
  using assms by (induction xs) auto

lemma str_split_not_Nil: "str_split c s \<noteq> []"
  by (induction s) (auto split: list.splits)

lemma str_split_append:
  "str_split c (a @ c # b) = str_split c a @ str_split c b"
proof (induction a)
  case Nil
  show ?case by simp
next
  case (Cons x a)
  obtain w ws where "str_split c a = w # ws"
    using str_split_not_Nil [of c a] by (cases "str_split c a") auto
  with Cons show ?case by simp
qed

lemma split_start_markers:
  "str_split CHR '' '' (concat (replicate k ''<s> '') @ r) =
     replicate k ''<s>'' @ str_split CHR '' '' r"
proof (induction k)
  case 0
  show ?case by simp
next
  case (Suc k)
  have "str_split CHR '' '' (''<s>'' @ CHR '' '' # (concat (replicate k ''<s> '') @ r)) =
        str_split CHR '' '' ''<s>'' @ str_split CHR '' '' (concat (replicate k ''<s> '') @ r)"
    by (rule str_split_append)
  with Suc show ?case by simp
qed

lemma split_wrapped:
  "str_split CHR '' '' (concat (replicate k ''<s> '') @ s @ '' </s>'') =
     replicate k ''<s>'' @ str_split CHR '' '' s @ [''</s>'']"
proof -
  have "str_split CHR '' '' (s @ CHR '' '' # ''</s>'') =
        str_split CHR '' '' s @ str_split CHR '' '' ''</s>''"
    by (rule str_split_append)
  then show ?thesis by (simp add: split_start_markers)
qed

lemma split_join:
  "ws \<noteq> [] \<Longrightarrow>
     str_split CHR '' '' (str_join '' '' ws) = concat (map (str_split CHR '' '') ws)"
proof (induction ws rule: induct_list012)
  case 1
  then show ?case by simp
next
  case (2 x)
  show ?case by simp
next
  case (3 x y ys)
  have "str_split CHR '' '' (x @ CHR '' '' # str_join '' '' (y # ys)) =
        str_split CHR '' '' x @ str_split CHR '' '' (str_join '' '' (y # ys))"
    by (rule str_split_append)
  with 3 show ?case by simp
qed

lemma add_sentence_tokens_wrap:
  assumes "1 \<le> n"
  shows "add_sentence_tokens sentences n =
    map (\<lambda>s. concat (replicate (if n = 1 then 1 else nat (n - 1)) ''<s> '') @ s @ '' </s>'') sentences"
  using assms by (simp add: add_sentence_tokens_def str_mul_def SOS_def EOS_def)

lemma preprocess_not_Nil: "preprocess sentences n \<noteq> []"
  by (simp add: preprocess_def replace_singletons_map Let_def str_split_not_Nil)

section \<open>The trained model\<close>

lemma init_Inr:
  assumes "LanguageModel_init train_data n laplace = Inr M"
  shows "self_n M = n" "self_laplace M = laplace" "self_tokens M = preprocess train_data n"
    "self_vocab M = FreqDist (preprocess train_data n)"
    "create_model n laplace (preprocess train_data n) (FreqDist (preprocess train_data n)) = Inr (self_model M)"
    "0 \<le> n"
  using assms
  by (auto simp: LanguageModel_init_def Let_def product_repeat_def split: sum.splits if_splits)

lemma init_order: 
  assumes "LanguageModel_init train_data n laplace = Inr M"
  shows "1 \<le> n"
proof (rule ccontr)
  assume "\<not> 1 \<le> n"
  then have "n < 1" by simp
  then have "LanguageModel_init train_data n laplace = Inl ValueError"
    by (simp add: LanguageModel_init_def create_model_def smooth_def ngrams_def Let_def)
  with assms show False by simp
qed

lemma windows_length: "g \<in> set (windows k xs) \<Longrightarrow> length g = k"
  by (induction xs) (auto split: if_splits)

lemma count_windows_prefix:
  "count_list (windows (Suc k) ts) g \<le> count_list (windows k ts) (butlast g)"
proof (induction ts)
  case Nil
  show ?case by simp
next
  case (Cons x xs)
  show ?case
  proof (cases "length (x # xs) < Suc k")
    case True
    then show ?thesis by simp
  next
    case False
    then have "Suc k \<le> length (x # xs)" by simp
    then have "butlast (take (Suc k) (x # xs)) = take (Suc k - 1) (x # xs)"
      by (rule butlast_take)
    then have "take (Suc k) (x # xs) = g \<Longrightarrow> take k (x # xs) = butlast g"
      by auto
    with False Cons show ?thesis by auto
  qed
qed

lemma smooth_Inr:
  assumes "smooth n laplace toks vocab = Inr tab" and "1 < n" and "g \<in> set (windows (nat n) toks)"
  shows "map_of tab g =
    Some (real_of_int (int (count_list (windows (nat n) toks) g) + laplace) /
          real_of_int (int (count_list (windows (nat (n - 1)) toks) (butlast g)) + laplace * int (length vocab)))"
proof -
  let ?nv = "FreqDist (windows (nat n) toks)"
  let ?mv = "FreqDist (windows (nat (n - 1)) toks)"
  from assms(1,2) have dc: "dict_comp
      (\<lambda>(k, c). case smoothed_count laplace (length vocab) ?mv k c of
                  Inl e \<Rightarrow> Inl e | Inr p \<Rightarrow> Inr (k, p)) ?nv [] = Inr tab"
    by (simp add: smooth_def ngrams_def Let_def)
  have "(g, count_list (windows (nat n) toks) g) \<in> set ?nv"
    using assms(3) by (simp add: FreqDist_item_iff)
  with dict_comp_lookup [where h = "\<lambda>k. k", OF dc distinct_FreqDist] inj_on_id
  obtain p where p: "smoothed_count laplace (length vocab) ?mv g (count_list (windows (nat n) toks) g) = Inr p"
    and tab: "map_of tab g = Some p"
    by fastforce
  from p show ?thesis
    unfolding tab
    by (simp add: smoothed_count_def truediv_def freq_FreqDist Let_def split: if_splits)
qed

lemma smooth_entry:
  assumes "smooth n laplace toks vocab = Inr tab" and "1 < n" and "map_of tab g = Some p"
  shows "g \<in> set (windows (nat n) toks) \<and>
    int (count_list (windows (nat (n - 1)) toks) (butlast g)) + laplace * int (length vocab) \<noteq> 0 \<and>
    p = real_of_int (int (count_list (windows (nat n) toks) g) + laplace) /
          real_of_int (int (count_list (windows (nat (n - 1)) toks) (butlast g)) + laplace * int (length vocab))"
proof -
  let ?nv = "FreqDist (windows (nat n) toks)"
  let ?mv = "FreqDist (windows (nat (n - 1)) toks)"
  from assms(1,2) have dc: "dict_comp
      (\<lambda>(k, c). case smoothed_count laplace (length vocab) ?mv k c of
                  Inl e \<Rightarrow> Inl e | Inr p \<Rightarrow> Inr (k, p)) ?nv [] = Inr tab"
    by (simp add: smooth_def ngrams_def Let_def)
  from dict_comp_keys [where h = "\<lambda>k. k", OF dc distinct_FreqDist _ assms(3)]
  obtain c where "(g, c) \<in> set ?nv" and "smoothed_count laplace (length vocab) ?mv g c = Inr p"
    by auto
  then show ?thesis
    by (auto simp: FreqDist_item_iff smoothed_count_def truediv_def freq_FreqDist Let_def split: if_splits)
qed

lemma create_model_unigram:
  assumes "create_model 1 laplace toks (FreqDist toks) = Inr tab" and "t \<in> set toks"
  shows "map_of tab [t] = Some (real (count_list toks t) / real (length toks))"
proof -
  from assms(1) have dc: "dict_comp
      (\<lambda>(k, c). case truediv (int c) (int (length toks)) of
                  Inl e \<Rightarrow> Inl e | Inr p \<Rightarrow> Inr ((\<lambda>u. [u]) k, p)) (FreqDist toks) [] = Inr tab"
    by (simp add: create_model_def Let_def)
  have inj: "inj (\<lambda>u::string. [u])" by (simp add: inj_def)
  have "(t, count_list toks t) \<in> set (FreqDist toks)"
    using assms(2) by (simp add: FreqDist_item_iff)
  with dict_comp_lookup [OF dc distinct_FreqDist inj]
  obtain p where p: "truediv (int (count_list toks t)) (int (length toks)) = Inr p"
    and tab: "map_of tab [t] = Some p"
    by fastforce
  from p show ?thesis
    unfolding tab by (simp add: truediv_def split: if_splits)
qed

lemma unigram_entry:
  assumes "create_model 1 laplace toks (FreqDist toks) = Inr tab" and "map_of tab g = Some p"
  shows "\<exists>t \<in> set toks. g = [t] \<and> p = real (count_list toks t) / real (length toks)"
proof -
  from assms(1) have dc: "dict_comp
      (\<lambda>(k, c). case truediv (int c) (int (length toks)) of
                  Inl e \<Rightarrow> Inl e | Inr p \<Rightarrow> Inr ((\<lambda>u. [u]) k, p)) (FreqDist toks) [] = Inr tab"
    by (simp add: create_model_def Let_def)
  have inj: "inj (\<lambda>u::string. [u])" by (simp add: inj_def)
  from dict_comp_keys [OF dc distinct_FreqDist inj assms(2)]
  obtain t c where "(t, c) \<in> set (FreqDist toks)" "g = [t]" "truediv (int c) (int (length toks)) = Inr p"
    by auto
  then show ?thesis
    by (auto simp: FreqDist_item_iff truediv_def split: if_splits)
qed

lemma ratio_in_unit_interval:
  fixes a b :: int
  assumes "0 < a" and "a \<le> b"
  shows "0 < real_of_int a / real_of_int b \<and> real_of_int a / real_of_int b \<le> 1"
  using assms by simp

lemma count_ratio_in_unit_interval:
  fixes a b :: nat
  assumes "0 < a" and "a \<le> b"
  shows "0 < real a / real b \<and> real a / real b \<le> 1"
proof -
  from assms have "0 < real a" "0 < real b" "real a \<le> real b" by simp_all
  then show ?thesis by simp
qed

text \<open>
  Every stored probability lies in \<open>(0, 1]\<close> when the smoothing constant is not
  negative: an observed n-gram occurs at least once, and at most as often as
  its prefix.
\<close>

lemma stored_in_unit_interval:
  assumes "LanguageModel_init train_data n laplace = Inr M"
    and "n = 1 \<or> 0 \<le> laplace"
    and "map_of (self_model M) g = Some p"
  shows "0 < p \<and> p \<le> 1"
proof (cases "n = 1")
  case True
  let ?toks = "preprocess train_data 1"
  from init_Inr(5) [OF assms(1)] True assms(3)
  obtain t where t: "t \<in> set ?toks" "p = real (count_list ?toks t) / real (length ?toks)"
    using unigram_entry by blast
  from t(1) have "0 < count_list ?toks t"
    using count_list_0_iff [of ?toks t] by auto
  moreover have "count_list ?toks t \<le> length ?toks"
    by (rule count_le_length)
  ultimately have "0 < real (count_list ?toks t) / real (length ?toks) \<and>
      real (count_list ?toks t) / real (length ?toks) \<le> 1"
    by (rule count_ratio_in_unit_interval)
  then show ?thesis
    by (simp only: t(2))
next
  case False
  with init_order [OF assms(1)] have n: "1 < n" by simp
  with assms(2) have lam: "0 \<le> laplace" by simp
  let ?toks = "preprocess train_data n"
  let ?c = "count_list (windows (nat n) ?toks) g"
  let ?m = "count_list (windows (nat (n - 1)) ?toks) (butlast g)"
  let ?V = "length (FreqDist ?toks)"
  from init_Inr(5) [OF assms(1)] n
  have sm: "smooth n laplace ?toks (FreqDist ?toks) = Inr (self_model M)"
    by (simp add: create_model_def)
  from smooth_entry [OF sm n assms(3)]
  have g: "g \<in> set (windows (nat n) ?toks)"
    and p: "p = real_of_int (int ?c + laplace) / real_of_int (int ?m + laplace * int ?V)"
    by simp_all
  from g have c: "0 < ?c"
    using count_list_0_iff [of "windows (nat n) ?toks" g] by auto
  from n have "nat n = Suc (nat (n - 1))" by simp
  then have cm: "?c \<le> ?m"
    using count_windows_prefix [of "nat (n - 1)" ?toks g] by simp
  have "?toks \<noteq> []" by (rule preprocess_not_Nil)
  then have V: "1 \<le> ?V"
    by (cases ?toks) (simp_all add: length_FreqDist card_gt_0_iff Suc_le_eq)
  have "laplace * 1 \<le> laplace * int ?V"
    using lam V by (intro mult_left_mono) simp_all
  with c cm have "0 < int ?c + laplace \<and> int ?c + laplace \<le> int ?m + laplace * int ?V"
    using lam by simp
  then show ?thesis
    unfolding p using ratio_in_unit_interval by blast
qed

lemma unseen_probability:
  assumes "LanguageModel_init train_data n laplace = Inr M"
    and "0 < laplace"
    and "map_of (self_model M) g = None"
  shows "probability M g =
      Inr (real_of_int laplace /
           real_of_int (int (freq (frequency_counter (preprocess train_data n) (nat (n - 1)))
                                  (take (nat (n - 1)) g))
                        + laplace * int (card (set (preprocess train_data n)))))"
    and "0 < real_of_int laplace /
           real_of_int (int (freq (frequency_counter (preprocess train_data n) (nat (n - 1)))
                                  (take (nat (n - 1)) g))
                        + laplace * int (card (set (preprocess train_data n))))"
    and "real_of_int laplace /
           real_of_int (int (freq (frequency_counter (preprocess train_data n) (nat (n - 1)))
                                  (take (nat (n - 1)) g))
                        + laplace * int (card (set (preprocess train_data n)))) \<le> 1"
proof -
  let ?toks = "preprocess train_data n"
  let ?m = "freq (frequency_counter ?toks (nat (n - 1))) (take (nat (n - 1)) g)"
  let ?V = "card (set ?toks)"
  have "?toks \<noteq> []" by (rule preprocess_not_Nil)
  then have V: "1 \<le> ?V"
    by (cases ?toks) (simp_all add: card_gt_0_iff Suc_le_eq)
  have "laplace * 1 \<le> laplace * int ?V"
    using assms(2) V by (intro mult_left_mono) simp_all
  then have "laplace \<le> laplace * int ?V"
    by (simp only: mult_1_right)
  moreover have "0 \<le> int ?m"
    by simp
  ultimately have den: "0 < laplace \<and> laplace \<le> int ?m + laplace * int ?V"
    using assms(2) by linarith
  then show "0 < real_of_int laplace / real_of_int (int ?m + laplace * int ?V)"
    and "real_of_int laplace / real_of_int (int ?m + laplace * int ?V) \<le> 1"
    using ratio_in_unit_interval by blast+
  from den have "int ?m + laplace * int ?V \<noteq> 0" by simp
  then show "probability M g = Inr (real_of_int laplace / real_of_int (int ?m + laplace * int ?V))"
    using assms(3)
    by (simp add: probability_def init_Inr [OF assms(1)] Let_def truediv_def length_FreqDist)
qed

section \<open>Generation depends on the content of the model only\<close>

lemma probability_error: "probability M g = Inl e \<Longrightarrow> e = ZeroDivisionError"
  by (auto simp: probability_def truediv_def Let_def split: option.splits if_splits)

lemma probability_cong:
  assumes "self_n M' = self_n M" and "self_laplace M' = self_laplace M"
    and "self_tokens M' = self_tokens M"
    and "length (self_vocab M') = length (self_vocab M)"
    and "map_of (self_model M') = map_of (self_model M)"
  shows "probability M' g = probability M g"
  using assms by (simp add: probability_def split: option.splits)

lemma score_eq:
  "score M ctx ts =
     (if \<forall>t \<in> set ts. \<not> isl (probability M (ctx @ [t]))
      then Inr (map (\<lambda>t. (t, projr (probability M (ctx @ [t])))) ts)
      else Inl ZeroDivisionError)"
proof (induction ts)
  case Nil
  show ?case by simp
next
  case (Cons t ts)
  show ?case
  proof (cases "probability M (ctx @ [t])")
    case (Inl e)
    then have "e = ZeroDivisionError" by (rule probability_error)
    with Inl show ?thesis by simp
  next
    case (Inr p)
    with Cons show ?thesis by simp
  qed
qed

lemma better_asym: "better a b \<Longrightarrow> \<not> better b a"
  by (auto simp: better_def)

lemma better_trans: "better a b \<Longrightarrow> better b c \<Longrightarrow> better a c"
  by (auto simp: better_def)

lemma better_linear_scored: "a = b \<or> better (a, f a) (b, f b) \<or> better (b, f b) (a, f a)"
  by (auto simp: better_def)

lemma pick_best_Some: "xs \<noteq> [] \<Longrightarrow> \<exists>b. pick_best xs = Some b"
  by (cases xs) (auto split: option.splits)

lemma pick_best_None: "pick_best xs = None \<longleftrightarrow> xs = []"
  by (cases xs) (auto split: option.splits)

text \<open>
  The candidate picked is preferred to every other scored candidate, so it is
  determined by the set of candidates, not by the order of their enumeration.
\<close>

lemma pick_best_scored_max:
  assumes "pick_best (map (\<lambda>t. (t, f t)) ts) = Some b"
  shows "b \<in> (\<lambda>t. (t, f t)) ` set ts \<and> (\<forall>t \<in> set ts. (t, f t) = b \<or> better b (t, f t))"
  using assms
proof (induction ts arbitrary: b)
  case Nil
  then show ?case by simp
next
  case (Cons c cs)
  show ?case
  proof (cases "pick_best (map (\<lambda>t. (t, f t)) cs)")
    case None
    then have "cs = []" by (simp add: pick_best_None)
    with Cons.prems show ?thesis by simp
  next
    case (Some b')
    note IH = Cons.IH [OF Some]
    from IH obtain t' where b': "b' = (t', f t')" by auto
    show ?thesis
    proof (cases "better b' (c, f c)")
      case True
      with Some Cons.prems have "b = b'" by simp
      with IH True show ?thesis by auto
    next
      case False
      with Some Cons.prems have b: "b = (c, f c)" by simp
      from False b' better_linear_scored [of c t' f]
      have cb: "(c, f c) = b' \<or> better (c, f c) b'" by auto
      have "(t, f t) = b \<or> better b (t, f t)" if "t \<in> set cs" for t
      proof -
        from IH that have "(t, f t) = b' \<or> better b' (t, f t)" by blast
        with cb show ?thesis
          unfolding b by (auto intro: better_trans)
      qed
      with b show ?thesis by auto
    qed
  qed
qed

lemma pick_best_set:
  assumes "set ts = set ts'"
  shows "pick_best (map (\<lambda>t. (t, f t)) ts) = pick_best (map (\<lambda>t. (t, f t)) ts')"
proof (cases "ts = []")
  case True
  with assms have "ts' = []" by auto
  with True show ?thesis by simp
next
  case False
  with assms have "ts' \<noteq> []" by auto
  with False obtain b b' where b: "pick_best (map (\<lambda>t. (t, f t)) ts) = Some b"
    and b': "pick_best (map (\<lambda>t. (t, f t)) ts') = Some b'"
    using pick_best_Some [of "map (\<lambda>t. (t, f t)) ts"] pick_best_Some [of "map (\<lambda>t. (t, f t)) ts'"]
    by auto
  note m = pick_best_scored_max [OF b] and m' = pick_best_scored_max [OF b']
  from m m' assms have "b' = b \<or> better b b'" and "b = b' \<or> better b' b"
    by auto
  then have "b = b'"
    using better_asym by blast
  with b b' show ?thesis by simp
qed

lemma best_candidate_cong:
  assumes "self_n M' = self_n M" and "self_laplace M' = self_laplace M"
    and "self_tokens M' = self_tokens M"
    and "set (self_vocab M') = set (self_vocab M)"
    and "length (self_vocab M') = length (self_vocab M)"
    and "map_of (self_model M') = map_of (self_model M)"
  shows "best_candidate M' ctx ex = best_candidate M ctx ex"
proof -
  let ?c = "\<lambda>M. filter (\<lambda>t. t \<notin> set ex) (map fst (self_vocab M))"
  have p: "probability M' g = probability M g" for g
    using assms(1,2,3,5,6) by (rule probability_cong)
  have s: "set (?c M') = set (?c M)"
    using assms(4) by simp
  have "pick_best (map (\<lambda>t. (t, projr (probability M (ctx @ [t])))) (?c M')) =
        pick_best (map (\<lambda>t. (t, projr (probability M (ctx @ [t])))) (?c M))"
    using s by (rule pick_best_set)
  then show ?thesis
    unfolding best_candidate_def score_eq p
    by (simp only: s split: if_splits) simp
qed

lemma extend_cong:
  assumes "self_n M' = self_n M"
    and "\<And>ctx ex. best_candidate M' ctx ex = best_candidate M ctx ex"
  shows "extend M' min_len fuel len sent prob = extend M min_len fuel len sent prob"
  using assms
  by (induction fuel arbitrary: len sent prob) (simp_all add: Let_def split: sum.splits option.splits)

lemma generation_determined_by_model_content:
  assumes "self_n M' = self_n M" and "self_laplace M' = self_laplace M"
    and "self_tokens M' = self_tokens M"
    and "set (self_vocab M') = set (self_vocab M)"
    and "length (self_vocab M') = length (self_vocab M)"
    and "map_of (self_model M') = map_of (self_model M)"
  shows "generate_sentences M' count min_len max_len = generate_sentences M count min_len max_len"
proof -
  have "best_candidate M' ctx ex = best_candidate M ctx ex" for ctx ex
    using assms by (rule best_candidate_cong)
  with assms(1) have "extend M' min_len fuel len sent prob = extend M min_len fuel len sent prob"
    for fuel len sent prob
    by (rule extend_cong)
  then have "generate_sentence M' min_len max_len = generate_sentence M min_len max_len"
    by (simp add: generate_sentence_def assms(1))
  then show ?thesis
    by (induction count) (simp_all split: sum.splits)
qed

lemma dict_equal_length: "dict_equal d d' \<Longrightarrow> length d = length d'"
  by (metis dict_equal_def distinct_card distinct_map)

lemma dict_equal_map_of: "dict_equal d d' \<Longrightarrow> map_of d = map_of d'"
  by (simp add: dict_equal_def map_of_inject_set)

section \<open>The generator computes the run that the specification describes\<close>

text \<open>
  The candidate that the enumeration returns is the continuation of maximum
  probability with the least token among equals, and there is exactly one.
\<close>

lemma best_candidate_None:
  "best_candidate M ctx ex = Inr None \<longleftrightarrow>
     (\<forall>t \<in> set (map fst (self_vocab M)). t \<in> set ex)"
proof -
  let ?c = "filter (\<lambda>t. t \<notin> set ex) (map fst (self_vocab M))"
  have "best_candidate M ctx ex = Inr None \<longleftrightarrow> ?c = []"
  proof (cases "?c = []")
    case True
    then show ?thesis
      by (simp add: best_candidate_def)
  next
    case False
    then have "pick_best (map (\<lambda>t. (t, projr (probability M (ctx @ [t])))) ?c) \<noteq> None"
      by (simp add: pick_best_None)
    with False show ?thesis
      unfolding best_candidate_def score_eq by (simp split: if_splits)
  qed
  also have "\<dots> \<longleftrightarrow> (\<forall>t \<in> set (map fst (self_vocab M)). t \<in> set ex)"
    by (auto simp: filter_empty_conv)
  finally show ?thesis .
qed

lemma best_candidate_max:
  assumes "best_candidate M ctx ex = Inr (Some (t, p))"
  shows "max_continuation M ctx ex t p"
proof -
  let ?c = "filter (\<lambda>t. t \<notin> set ex) (map fst (self_vocab M))"
  let ?f = "\<lambda>t. projr (probability M (ctx @ [t]))"
  from assms have defined: "\<forall>c \<in> set ?c. \<not> isl (probability M (ctx @ [c]))"
    and best: "pick_best (map (\<lambda>t. (t, ?f t)) ?c) = Some (t, p)"
    unfolding best_candidate_def score_eq by (auto split: if_splits)
  note m = pick_best_scored_max [OF best]
  from m have t: "t \<in> set ?c" and p: "p = ?f t" by auto
  from t defined p have tp: "probability M (ctx @ [t]) = Inr p"
    by (cases "probability M (ctx @ [t])") auto
  have "case probability M (ctx @ [c]) of Inl e \<Rightarrow> False | Inr p' \<Rightarrow> p' < p \<or> (p' = p \<and> t \<le> c)"
    if c: "c \<in> set ?c" for c
  proof -
    from c defined obtain p' where p': "probability M (ctx @ [c]) = Inr p'"
      by (cases "probability M (ctx @ [c])") auto
    from m c have "(c, ?f c) = (t, p) \<or> better (t, p) (c, ?f c)" by blast
    with p' have "p' < p \<or> (p' = p \<and> t \<le> c)"
      by (auto simp: better_def)
    with p' show ?thesis by simp
  qed
  with t tp show ?thesis
    by (auto simp: max_continuation_def)
qed

lemma max_continuation_unique:
  assumes "max_continuation M ctx ex t p" and "max_continuation M ctx ex t' p'"
  shows "t = t' \<and> p = p'"
proof -
  from assms have tp: "probability M (ctx @ [t]) = Inr p" and tp': "probability M (ctx @ [t']) = Inr p'"
    by (simp_all add: max_continuation_def)
  from assms(1) have "\<forall>c \<in> set (map fst (self_vocab M)). c \<notin> set ex \<longrightarrow>
      (case probability M (ctx @ [c]) of Inl e \<Rightarrow> False | Inr q \<Rightarrow> q < p \<or> (q = p \<and> t \<le> c))"
    by (simp add: max_continuation_def)
  moreover from assms(2) have "t' \<in> set (map fst (self_vocab M))" "t' \<notin> set ex"
    by (simp_all add: max_continuation_def)
  ultimately have a: "p' < p \<or> (p' = p \<and> t \<le> t')"
    using tp' by fastforce
  from assms(2) have "\<forall>c \<in> set (map fst (self_vocab M)). c \<notin> set ex \<longrightarrow>
      (case probability M (ctx @ [c]) of Inl e \<Rightarrow> False | Inr q \<Rightarrow> q < p' \<or> (q = p' \<and> t' \<le> c))"
    by (simp add: max_continuation_def)
  moreover from assms(1) have "t \<in> set (map fst (self_vocab M))" "t \<notin> set ex"
    by (simp_all add: max_continuation_def)
  ultimately have b: "p < p' \<or> (p = p' \<and> t' \<le> t)"
    using tp by fastforce
  from a b show ?thesis by auto
qed

lemma max_continuation_best:
  assumes "max_continuation M ctx ex t p"
  shows "best_candidate M ctx ex = Inr (Some (t, p))"
proof -
  let ?c = "filter (\<lambda>t. t \<notin> set ex) (map fst (self_vocab M))"
  let ?f = "\<lambda>t. projr (probability M (ctx @ [t]))"
  from assms have t: "t \<in> set ?c"
    by (simp add: max_continuation_def)
  have defined: "\<forall>c \<in> set ?c. \<not> isl (probability M (ctx @ [c]))"
  proof
    fix c
    assume "c \<in> set ?c"
    then have "c \<in> set (map fst (self_vocab M))" and "c \<notin> set ex" by simp_all
    with assms have "case probability M (ctx @ [c]) of Inl e \<Rightarrow> False | Inr q \<Rightarrow> q < p \<or> (q = p \<and> t \<le> c)"
      unfolding max_continuation_def by blast
    then show "\<not> isl (probability M (ctx @ [c]))"
      by (cases "probability M (ctx @ [c])") simp_all
  qed
  from t have "?c \<noteq> []" by (metis empty_iff empty_set)
  then have "map (\<lambda>t. (t, ?f t)) ?c \<noteq> []" by simp
  then obtain b where b: "pick_best (map (\<lambda>t. (t, ?f t)) ?c) = Some b"
    using pick_best_Some by blast
  obtain t' p' where b': "b = (t', p')" by (cases b)
  from defined b have "best_candidate M ctx ex = Inr (Some (t', p'))"
    unfolding best_candidate_def score_eq b' by simp
  then have "max_continuation M ctx ex t' p'"
    by (rule best_candidate_max)
  with assms have "t = t' \<and> p = p'"
    by (rule max_continuation_unique)
  with \<open>best_candidate M ctx ex = Inr (Some (t', p'))\<close> show ?thesis by simp
qed

lemma extend_run:
  "extend M min_len fuel len sent prob = Inr (s, q) \<longleftrightarrow>
     generation_run M min_len fuel len sent prob s q"
proof (induction fuel arbitrary: len sent prob)
  case 0
  show ?case
    by (auto intro: generation_run.intros elim: generation_run.cases)
next
  case (Suc fuel)
  let ?ctx = "context_of M sent" and ?ex = "excluded min_len len"
  show ?case
  proof
    assume e: "extend M min_len (Suc fuel) len sent prob = Inr (s, q)"
    show "generation_run M min_len (Suc fuel) len sent prob s q"
    proof (cases "best_candidate M ?ctx ?ex")
      case (Inl err)
      with e show ?thesis by (simp add: Let_def)
    next
      case (Inr r)
      show ?thesis
      proof (cases r)
        case None
        with Inr e have "s = sent" "q = prob" by (simp_all add: Let_def)
        moreover from Inr None have "\<forall>t \<in> set (map fst (self_vocab M)). t \<in> set ?ex"
          by (simp only: best_candidate_None)
        ultimately show ?thesis
          by (simp only: generation_run.no_candidate)
      next
        case (Some tp)
        obtain t p where tp: "tp = (t, p)" by (cases tp)
        from Inr Some tp have m: "max_continuation M ?ctx ?ex t p"
          by (intro best_candidate_max) simp
        show ?thesis
        proof (cases "t = EOS")
          case True
          with Inr Some tp e have "s = sent @ [EOS]" "q = prob * p" by (simp_all add: Let_def)
          with m True show ?thesis
            by (simp only: generation_run.end_marker)
        next
          case False
          with Inr Some tp e have "extend M min_len fuel (Suc len) (sent @ [t]) (prob * p) = Inr (s, q)"
            by (simp add: Let_def)
          then have "generation_run M min_len fuel (Suc len) (sent @ [t]) (prob * p) s q"
            by (simp only: Suc.IH)
          with m False show ?thesis
            by (rule generation_run.continuation)
        qed
      qed
    qed
  next
    assume "generation_run M min_len (Suc fuel) len sent prob s q"
    then show "extend M min_len (Suc fuel) len sent prob = Inr (s, q)"
    proof (cases rule: generation_run.cases)
      case no_candidate
      then have "best_candidate M ?ctx ?ex = Inr None"
        by (simp only: best_candidate_None)
      with no_candidate show ?thesis by (simp add: Let_def)
    next
      case (end_marker p)
      then have "best_candidate M ?ctx ?ex = Inr (Some (EOS, p))"
        by (intro max_continuation_best) simp
      with end_marker show ?thesis by (simp add: Let_def)
    next
      case (continuation t p)
      then have "best_candidate M ?ctx ?ex = Inr (Some (t, p))"
        by (intro max_continuation_best) simp
      moreover from continuation have "extend M min_len fuel (Suc len) (sent @ [t]) (prob * p) = Inr (s, q)"
        by (simp only: Suc.IH)
      ultimately show ?thesis
        using continuation by (simp add: Let_def)
    qed
  qed
qed

lemma generate_sentences_call:
  "generate_sentences M count min_len max_len = Inr out \<longleftrightarrow>
     generation_call M count min_len max_len out"
proof (induction count arbitrary: out)
  case 0
  show ?case
    by (auto intro: generation_call.intros elim: generation_call.cases)
next
  case (Suc count)
  show ?case
  proof
    assume g: "generate_sentences M (Suc count) min_len max_len = Inr out"
    then obtain r rs where r: "generate_sentence M min_len max_len = Inr r"
      and rs: "generate_sentences M count min_len max_len = Inr rs" and out: "out = r # rs"
      by (auto split: sum.splits)
    from r obtain sent prob
      where e: "extend M min_len max_len 0 (replicate (nat (self_n M - 1)) ''<s>'') 1 = Inr (sent, prob)"
        and r': "r = (str_join '' '' sent, prob)"
      by (auto simp: generate_sentence_def split: sum.splits)
    from e have "generation_run M min_len max_len 0 (replicate (nat (self_n M - 1)) ''<s>'') 1 sent prob"
      by (simp only: extend_run)
    moreover from rs have "generation_call M count min_len max_len rs"
      by (simp only: Suc.IH)
    ultimately show "generation_call M (Suc count) min_len max_len out"
      unfolding out r' by (rule generation_call.next_sentence)
  next
    assume "generation_call M (Suc count) min_len max_len out"
    then show "generate_sentences M (Suc count) min_len max_len = Inr out"
    proof (cases rule: generation_call.cases)
      case (next_sentence sent prob rs)
      then have "extend M min_len max_len 0 (replicate (nat (self_n M - 1)) ''<s>'') 1 = Inr (sent, prob)"
        and "generate_sentences M count min_len max_len = Inr rs"
        by (simp_all only: extend_run Suc.IH)
      with next_sentence show ?thesis
        by (simp add: generate_sentence_def)
    qed
  qed
qed

section \<open>The claims\<close>

text \<open>
  C1. For a model trained with order \<open>n > 1\<close> and for every n-gram \<open>g\<close> observed
  in the preprocessed training token stream, the stored probability is
  \<open>(count g + \<lambda>) / (count (prefix g) + \<lambda> * |vocabulary|)\<close>: \<open>count g\<close> is the number
  of windows of length \<open>n\<close> equal to \<open>g\<close>, \<open>prefix g\<close> is the first \<open>n - 1\<close> tokens
  of \<open>g\<close>, counted among the windows of length \<open>n - 1\<close> of the same stream (0 if
  absent), and the vocabulary is the set of distinct tokens of that stream,
  markers included.
\<close>

theorem stored_probability_is_laplace_formula:
  assumes "LanguageModel_init train_data n laplace = Inr M"
    and "1 < n"
    and "g \<in> set (windows (nat n) (preprocess train_data n))"
  shows "map_of (self_model M) g =
    Some (real_of_int (int (count_list (windows (nat n) (preprocess train_data n)) g) + laplace) /
          real_of_int (int (count_list (windows (nat (n - 1)) (preprocess train_data n))
                              (take (nat (n - 1)) g))
                       + laplace * int (card (set (preprocess train_data n)))))"
proof -
  from init_Inr(5) [OF assms(1)] assms(2)
  have sm: "smooth n laplace (preprocess train_data n) (FreqDist (preprocess train_data n)) = Inr (self_model M)"
    by (simp add: create_model_def)
  have "length g = nat n"
    using assms(3) by (rule windows_length)
  then have "butlast g = take (nat (n - 1)) g"
    using assms(2) by (simp add: butlast_conv_take nat_diff_distrib)
  with smooth_Inr [OF sm assms(2,3)] show ?thesis
    by (simp add: length_FreqDist)
qed

theorem stored_probability_witness:
  "\<exists>M. LanguageModel_init [''the cat sat'', ''the dog sat''] 2 1 = Inr M \<and>
       (1::int) < 2 \<and>
       [''<s>'', ''the''] \<in> set (windows (nat 2) (preprocess [''the cat sat'', ''the dog sat''] 2)) \<and>
       map_of (self_model M) [''<s>'', ''the''] = Some (3 / 7)"
proof -
  let ?D = "[''the cat sat'', ''the dog sat'']"
  have "\<not> isl (LanguageModel_init ?D 2 1)"
    by code_simp
  then obtain M where M: "LanguageModel_init ?D 2 1 = Inr M"
    by (cases "LanguageModel_init ?D 2 1") auto
  have n: "(1::int) < 2" by simp
  have g: "[''<s>'', ''the''] \<in> set (windows (nat 2) (preprocess ?D 2))"
    by code_simp
  have v: "real_of_int (int (count_list (windows (nat 2) (preprocess ?D 2)) [''<s>'', ''the'']) + 1) /
          real_of_int (int (count_list (windows (nat (2 - 1)) (preprocess ?D 2))
                              (take (nat (2 - 1)) [''<s>'', ''the'']))
                       + 1 * int (card (set (preprocess ?D 2)))) = 3 / 7"
    by code_simp
  from stored_probability_is_laplace_formula [OF M n g]
  have "map_of (self_model M) [''<s>'', ''the''] = Some (3 / 7)"
    unfolding v .
  with M n g show ?thesis by blast
qed

text \<open>
  C2. For a model trained with order \<open>n = 1\<close>, the probability stored for every
  vocabulary token is its count divided by the number of tokens of the
  preprocessed training stream; the smoothing constant does not occur in it.
\<close>

theorem unigram_probability_is_relative_frequency:
  assumes "LanguageModel_init train_data 1 laplace = Inr M"
    and "t \<in> fst ` set (self_vocab M)"
  shows "map_of (self_model M) [t] =
    Some (real (count_list (preprocess train_data 1) t) / real (length (preprocess train_data 1)))"
proof -
  from assms(2) have "t \<in> set (preprocess train_data 1)"
    by (simp add: init_Inr(4) [OF assms(1)] keys_FreqDist)
  with init_Inr(5) [OF assms(1)] show ?thesis
    by (rule create_model_unigram)
qed

theorem unigram_probability_witness:
  "\<exists>M. LanguageModel_init [''the cat sat'', ''the dog sat''] 1 1 = Inr M \<and>
       ''the'' \<in> fst ` set (self_vocab M) \<and>
       map_of (self_model M) [''the''] = Some (1 / 5)"
proof -
  let ?D = "[''the cat sat'', ''the dog sat'']"
  have "\<not> isl (LanguageModel_init ?D 1 1)"
    by code_simp
  then obtain M where M: "LanguageModel_init ?D 1 1 = Inr M"
    by (cases "LanguageModel_init ?D 1 1") auto
  have "''the'' \<in> fst ` set (FreqDist (preprocess ?D 1))"
    by code_simp
  then have t: "''the'' \<in> fst ` set (self_vocab M)"
    by (simp only: init_Inr(4) [OF M])
  have v: "real (count_list (preprocess ?D 1) ''the'') / real (length (preprocess ?D 1)) = 1 / 5"
    by code_simp
  from unigram_probability_is_relative_frequency [OF M t]
  have "map_of (self_model M) [''the''] = Some (1 / 5)"
    unfolding v .
  with M t show ?thesis by blast
qed

text \<open>
  C3, as stated (for every trained model, every n-gram of vocabulary tokens has
  a probability in \<open>(0, 1]\<close>), fails for the smoothing constant 0: the
  constructor accepts it, and an unseen bigram of two vocabulary tokens then
  has probability 0.
\<close>

theorem zero_smoothing_unseen_ngram_counterexample:
  "\<not> isl (LanguageModel_init [''the cat sat'', ''the dog sat''] 2 0) \<and>
   length [''the'', ''the''] = nat 2 \<and>
   set [''the'', ''the''] \<subseteq>
     fst ` set (self_vocab (projr (LanguageModel_init [''the cat sat'', ''the dog sat''] 2 0))) \<and>
   probability (projr (LanguageModel_init [''the cat sat'', ''the dog sat''] 2 0))
     [''the'', ''the''] = Inr 0"
  by code_simp

text \<open>
  C3, amended. For every model trained with order 1, or with a smoothing
  constant \<open>\<lambda> > 0\<close>, on any corpus (empty or not), and for every n-gram made of
  vocabulary tokens, seen or unseen in training, the probability that the model
  assigns to the n-gram is defined, strictly greater than 0 and at most 1.
\<close>

theorem vocabulary_ngram_probability_in_unit_interval:
  assumes "LanguageModel_init train_data n laplace = Inr M"
    and "n = 1 \<or> 0 < laplace"
    and "length g = nat n"
    and "set g \<subseteq> fst ` set (self_vocab M)"
  shows "\<exists>p. probability M g = Inr p \<and> 0 < p \<and> p \<le> 1"
proof (cases "map_of (self_model M) g")
  case (Some q)
  from assms(2) have "n = 1 \<or> 0 \<le> laplace" by auto
  from stored_in_unit_interval [OF assms(1) this Some] Some show ?thesis
    by (simp add: probability_def)
next
  case None
  have "0 < laplace"
  proof (rule ccontr)
    assume "\<not> 0 < laplace"
    with assms(2) have n: "n = 1" by simp
    with assms(3) obtain t where g: "g = [t]"
      by (cases g) auto
    with assms(4) have "t \<in> set (preprocess train_data n)"
      by (simp add: init_Inr(4) [OF assms(1)] keys_FreqDist)
    with init_Inr(5) [OF assms(1)] n have "map_of (self_model M) [t] \<noteq> None"
      using create_model_unigram by fastforce
    with None g show False by simp
  qed
  with unseen_probability [OF assms(1) _ None] show ?thesis by blast
qed

theorem vocabulary_ngram_probability_witness:
  "\<exists>M p. LanguageModel_init [''the cat sat'', ''the dog sat''] 2 1 = Inr M \<and>
       (0::int) < 1 \<and> length [''the'', ''the''] = nat 2 \<and>
       set [''the'', ''the''] \<subseteq> fst ` set (self_vocab M) \<and>
       map_of (self_model M) [''the'', ''the''] = None \<and>
       probability M [''the'', ''the''] = Inr p \<and> 0 < p \<and> p \<le> 1"
proof -
  let ?D = "[''the cat sat'', ''the dog sat'']"
  let ?M = "projr (LanguageModel_init ?D 2 1)"
  have "\<not> isl (LanguageModel_init ?D 2 1)"
    by code_simp
  then have M: "LanguageModel_init ?D 2 1 = Inr ?M"
    by simp
  have l: "(2::int) = 1 \<or> (0::int) < 1" by simp
  have g: "length [''the'', ''the''] = nat 2" by simp
  have v: "set [''the'', ''the''] \<subseteq> fst ` set (self_vocab ?M)"
    by code_simp
  have u: "map_of (self_model ?M) [''the'', ''the''] = None"
    by code_simp
  from vocabulary_ngram_probability_in_unit_interval [OF M l g v]
  obtain p where "probability ?M [''the'', ''the''] = Inr p" "0 < p" "p \<le> 1"
    by blast
  with M g v u show ?thesis
    by (intro exI [of _ ?M] exI [of _ p]) simp
qed

text \<open>
  C4, as stated (the raw token stream is the whitespace split of the joined
  sentences), fails on a sentence that starts with a space, as the second
  sentence of the line \<^verbatim>\<open>a b. a b.\<close> does once the line is cut at the full
  stops: the source splits at every single space, so the empty string between
  two spaces is a token, here a singleton that becomes the unknown marker.
\<close>

theorem whitespace_split_counterexample:
  "preprocess [''a b'', '' a b''] 2 =
     [''<s>'', ''a'', ''b'', ''</s>'', ''<s>'', ''<UNK>'', ''a'', ''b'', ''</s>''] \<and>
   preprocess_spec [''a b'', '' a b''] 2 =
     [''<s>'', ''a'', ''b'', ''</s>'', ''<s>'', ''a'', ''b'', ''</s>''] \<and>
   preprocess [''a b'', '' a b''] 2 \<noteq> preprocess_spec [''a b'', '' a b''] 2"
  by code_simp

text \<open>
  C4, amended. For every non-empty sentence list and every order \<open>n \<ge> 1\<close>,
  preprocessing (a) prepends \<open>n - 1\<close> start markers to each sentence (exactly 1
  when \<open>n = 1\<close>) and appends exactly one end marker, (b) joins the wrapped
  sentences with single spaces and cuts the result at every single space
  character, so that the raw token stream is, sentence after sentence, the
  start markers, the pieces of the sentence between its spaces (empty pieces
  included) and the end marker, and (c) replaces every token whose frequency in
  the raw stream is 1 by the unknown marker and leaves all other tokens
  unchanged.
\<close>

theorem preprocess_steps:
  assumes "1 \<le> n" and "sentences \<noteq> []"
  shows "let k = (if n = 1 then 1 else nat (n - 1));
             wrapped = map (\<lambda>s. concat (replicate k ''<s> '') @ s @ '' </s>'') sentences;
             raw = str_split CHR '' '' (str_join '' '' wrapped)
         in add_sentence_tokens sentences n = wrapped \<and>
            raw = concat (map (\<lambda>s. replicate k ''<s>'' @ str_split CHR '' '' s @ [''</s>'']) sentences) \<and>
            preprocess sentences n = map (\<lambda>t. if count_list raw t = 1 then UNK else t) raw"
proof -
  define k where "k = (if n = 1 then 1 else nat (n - 1))"
  define wrapped where "wrapped = map (\<lambda>s. concat (replicate k ''<s> '') @ s @ '' </s>'') sentences"
  define raw where "raw = str_split CHR '' '' (str_join '' '' wrapped)"
  have a: "add_sentence_tokens sentences n = wrapped"
    unfolding wrapped_def k_def using assms(1) by (rule add_sentence_tokens_wrap)
  have "wrapped \<noteq> []"
    using assms(2) by (simp add: wrapped_def)
  then have "raw = concat (map (str_split CHR '' '') wrapped)"
    unfolding raw_def by (rule split_join)
  then have b: "raw = concat (map (\<lambda>s. replicate k ''<s>'' @ str_split CHR '' '' s @ [''</s>'']) sentences)"
    by (simp add: wrapped_def split_wrapped comp_def)
  have once: "count_list raw t = 1 \<longleftrightarrow> \<not> 1 < count_list raw t" if "t \<in> set raw" for t
    using that count_list_0_iff [of raw t] by auto
  have c: "preprocess sentences n = map (\<lambda>t. if count_list raw t = 1 then UNK else t) raw"
    using once by (simp add: preprocess_def a raw_def [symmetric] replace_singletons_map Let_def)
  from a b c show ?thesis
    by (simp only: Let_def k_def [symmetric] wrapped_def [symmetric] raw_def [symmetric])
qed

theorem preprocess_steps_witness:
  "(1::int) \<le> 2 \<and> [''the cat sat'', ''the dog sat''] \<noteq> [] \<and>
   add_sentence_tokens [''the cat sat'', ''the dog sat''] 2 =
     [''<s> the cat sat </s>'', ''<s> the dog sat </s>''] \<and>
   str_split CHR '' '' ''<s> the cat sat </s> <s> the dog sat </s>'' =
     [''<s>'', ''the'', ''cat'', ''sat'', ''</s>'', ''<s>'', ''the'', ''dog'', ''sat'', ''</s>''] \<and>
   preprocess [''the cat sat'', ''the dog sat''] 2 =
     [''<s>'', ''the'', ''<UNK>'', ''sat'', ''</s>'', ''<s>'', ''the'', ''<UNK>'', ''sat'', ''</s>'']"
proof -
  let ?D = "[''the cat sat'', ''the dog sat'']"
  have n: "(1::int) \<le> 2" by simp
  have d: "?D \<noteq> []" by simp
  note s = preprocess_steps [OF n d, unfolded Let_def]
  from s have a: "add_sentence_tokens ?D 2 = [''<s> the cat sat </s>'', ''<s> the dog sat </s>'']"
    by simp
  from s have b: "str_split CHR '' '' ''<s> the cat sat </s> <s> the dog sat </s>'' =
     [''<s>'', ''the'', ''cat'', ''sat'', ''</s>'', ''<s>'', ''the'', ''dog'', ''sat'', ''</s>'']"
    by simp
  from s have c: "preprocess ?D 2 =
     [''<s>'', ''the'', ''<UNK>'', ''sat'', ''</s>'', ''<s>'', ''the'', ''<UNK>'', ''sat'', ''</s>'']"
    by (simp add: UNK_def)
  from n d a b c show ?thesis by blast
qed

text \<open>
  C5. In the token stream that preprocessing produces, every token other than
  the unknown marker occurs at least twice; this covers every token other than
  the three reserved markers.
\<close>

theorem preprocessed_tokens_occur_twice:
  assumes "t \<in> set (preprocess sentences n)" and "t \<noteq> UNK"
  shows "2 \<le> count_list (preprocess sentences n) t"
proof -
  define raw where "raw = str_split CHR '' '' (str_join '' '' (add_sentence_tokens sentences n))"
  have pre: "preprocess sentences n = map (\<lambda>x. if 1 < count_list raw x then x else UNK) raw"
    by (simp add: preprocess_def raw_def replace_singletons_map Let_def)
  from assms have "1 < count_list raw t"
    unfolding pre by auto
  moreover have "count_list (preprocess sentences n) t = (if 1 < count_list raw t then count_list raw t else 0)"
    unfolding pre using assms(2) by (rule count_list_map_if)
  ultimately show ?thesis by simp
qed

theorem preprocessed_tokens_occur_twice_witness:
  "''the'' \<in> set (preprocess [''the cat sat'', ''the dog sat''] 2) \<and> ''the'' \<noteq> UNK \<and>
   2 \<le> count_list (preprocess [''the cat sat'', ''the dog sat''] 2) ''the''"
proof -
  have a: "''the'' \<in> set (preprocess [''the cat sat'', ''the dog sat''] 2)" by code_simp
  have b: "''the'' \<noteq> UNK" by (simp add: UNK_def)
  from a b preprocessed_tokens_occur_twice [OF a b] show ?thesis by blast
qed

text \<open>
  C6. The specification has the empty sentence list preprocessed to the empty
  token stream. In the source the join of no sentence is the empty string,
  whose split at spaces is the list of one empty string; this token occurs once
  and is replaced: for every order, the result is the one-token stream of the
  unknown marker.
\<close>

theorem preprocess_empty: "preprocess [] n = [UNK]"
  by (simp add: preprocess_def add_sentence_tokens_def replace_singletons_map)

text \<open>
  C7, as stated (construction with \<open>n < 1\<close> fails with a ConfigurationError),
  fails: the constructor checks nothing and no ConfigurationError exists.
\<close>

theorem no_ConfigurationError_counterexample:
  "LanguageModel_init [''the cat sat'', ''the dog sat''] 0 1 \<noteq> Inl ConfigurationError"
  by code_simp

text \<open>
  C7, amended. Model construction with an order \<open>n < 1\<close> fails at construction
  time, for every training corpus and smoothing constant, with the ValueError
  that the library raises when \<^verbatim>\<open>_smooth\<close> asks it for windows of a negative
  length.
\<close>

theorem invalid_order_fails_with_ValueError:
  assumes "n < 1"
  shows "LanguageModel_init train_data n laplace = Inl ValueError"
  using assms
  by (simp add: LanguageModel_init_def create_model_def smooth_def ngrams_def Let_def)

theorem invalid_order_witness:
  "(0::int) < 1 \<and> LanguageModel_init [''the cat sat'', ''the dog sat''] 0 1 = Inl ValueError"
proof -
  have n: "(0::int) < 1" by simp
  from n invalid_order_fails_with_ValueError [OF n] show ?thesis by (rule conjI)
qed

text \<open>
  C8, as stated (lookup of an n-gram never seen never fails), fails for the
  smoothing constant 0: for a bigram whose first token was never seen, the
  smoothing formula divides by zero.
\<close>

theorem zero_smoothing_lookup_fails_counterexample:
  "\<not> isl (LanguageModel_init [''the cat sat'', ''the dog sat''] 2 0) \<and>
   map_of (self_model (projr (LanguageModel_init [''the cat sat'', ''the dog sat''] 2 0)))
     [''zebra'', ''the''] = None \<and>
   probability (projr (LanguageModel_init [''the cat sat'', ''the dog sat''] 2 0))
     [''zebra'', ''the''] = Inl ZeroDivisionError"
  by code_simp

text \<open>
  C8, amended. For every model trained with a smoothing constant \<open>\<lambda> > 0\<close>,
  probability lookup never fails, on any n-gram: it returns the table's value
  when the n-gram is in the table, and otherwise the value
  \<open>\<lambda> / (count (prefix) + \<lambda> * |vocabulary|)\<close> of the smoothing formula on live
  counts; the result is strictly positive and at most 1.
\<close>

theorem lookup_never_fails:
  assumes "LanguageModel_init train_data n laplace = Inr M"
    and "0 < laplace"
  shows "\<exists>p. probability M g = Inr p \<and> 0 < p \<and> p \<le> 1 \<and>
    (case map_of (self_model M) g of
       Some q \<Rightarrow> p = q
     | None \<Rightarrow>
         p = real_of_int laplace /
             real_of_int (int (freq (frequency_counter (preprocess train_data n) (nat (n - 1)))
                                    (take (nat (n - 1)) g))
                          + laplace * int (card (set (preprocess train_data n)))))"
proof (cases "map_of (self_model M) g")
  case None
  with unseen_probability [OF assms None] show ?thesis by simp
next
  case (Some q)
  from assms(2) have "n = 1 \<or> 0 \<le> laplace" by simp
  from stored_in_unit_interval [OF assms(1) this Some] Some show ?thesis
    by (simp add: probability_def)
qed

theorem lookup_never_fails_witness:
  "\<exists>M p. LanguageModel_init [''the cat sat'', ''the dog sat''] 2 1 = Inr M \<and>
       (0::int) < 1 \<and>
       map_of (self_model M) [''zebra'', ''the''] = None \<and>
       probability M [''zebra'', ''the''] = Inr p \<and> 0 < p \<and> p \<le> 1 \<and> p = 1 / 5"
proof -
  let ?D = "[''the cat sat'', ''the dog sat'']"
  let ?M = "projr (LanguageModel_init ?D 2 1)"
  have "\<not> isl (LanguageModel_init ?D 2 1)"
    by code_simp
  then have M: "LanguageModel_init ?D 2 1 = Inr ?M"
    by simp
  have l: "(0::int) < 1" by simp
  have u: "map_of (self_model ?M) [''zebra'', ''the''] = None"
    by code_simp
  have v: "real_of_int 1 /
             real_of_int (int (freq (frequency_counter (preprocess ?D 2) (nat (2 - 1)))
                                    (take (nat (2 - 1)) [''zebra'', ''the'']))
                          + 1 * int (card (set (preprocess ?D 2)))) = 1 / 5"
    by code_simp
  from lookup_never_fails [OF M l, of "[''zebra'', ''the'']"]
  obtain p where "probability ?M [''zebra'', ''the''] = Inr p" "0 < p" "p \<le> 1" "p = 1 / 5"
    unfolding u v by auto
  with M l u show ?thesis
    by (intro exI [of _ ?M] exI [of _ p]) simp
qed



text \<open>
  C10. \<open>replace_singletons\<close> returns a list of the length of its input, whose
  element at each position is the token at that position if it occurs more
  than once in the whole input and the unknown marker otherwise; hence the
  preprocessed token stream has the length of the raw stream it is derived
  from.
\<close>

theorem replace_singletons_positions:
  "length (replace_singletons ts) = length ts \<and>
   (\<forall>i < length ts. replace_singletons ts ! i = (if 1 < count_list ts (ts ! i) then ts ! i else UNK)) \<and>
   length (preprocess sentences n) =
     length (str_split CHR '' '' (str_join '' '' (add_sentence_tokens sentences n)))"
  by (simp add: replace_singletons_map preprocess_def Let_def)

theorem replace_singletons_positions_witness:
  "length (replace_singletons [''a'', ''b'', ''a'']) = 3 \<and>
   replace_singletons [''a'', ''b'', ''a''] ! 0 = ''a'' \<and>
   replace_singletons [''a'', ''b'', ''a''] ! 1 = ''<UNK>'' \<and>
   length (preprocess [''a b a''] 2) = 5"
proof -
  let ?ts = "[''a'', ''b'', ''a'']"
  note r = replace_singletons_positions [of ?ts "[''a b a'']" 2]
  from r have "length (replace_singletons ?ts) = 3" by simp
  moreover from r have "replace_singletons ?ts ! 0 = ''a''" by simp
  moreover from r have "replace_singletons ?ts ! 1 = ''<UNK>''" by (simp add: UNK_def)
  moreover have "length (str_split CHR '' '' (str_join '' '' (add_sentence_tokens [''a b a''] 2))) = 5"
    by code_simp
  with r have "length (preprocess [''a b a''] 2) = 5" by simp
  ultimately show ?thesis by blast
qed

end
